theory Spec2Isabelle
  imports Main "HOL-Library.Sublist"
begin

section \<open>Go channels\<close>

text \<open>
  A channel as \<^verbatim>\<open>make(chan T, n)\<close> creates it: the values in its buffer (oldest first),
  the buffer's capacity, whether it was closed, and the values of the senders that are
  parked on it (oldest first). Receivers parked on a channel are not part of the state:
  every operation below is the one Go performs when no receiver is waiting on the
  other side.
\<close>

record 'a chan =
  buf :: "'a list"
  cap :: nat
  closed :: bool
  sendq :: "'a list"

text \<open>
  What a call does besides changing the state: it returns (\<open>Done\<close>), it parks its
  goroutine (\<open>Blocked\<close>, with the state at that moment), or it panics.
\<close>

datatype 'a outcome = Done 'a | Blocked 'a | Panic

text \<open>The result of a receive \<^verbatim>\<open>v, ok := <-c\<close> that does not wait.\<close>

datatype 'a recv = Got 'a | Drained | Empty

definition make_chan :: "nat \<Rightarrow> 'a chan" where
  "make_chan n = \<lparr>buf = [], cap = n, closed = False, sendq = []\<rparr>"

text \<open>\<^verbatim>\<open>c <- x\<close>: panics on a closed channel, returns when the buffer has room, parks otherwise.\<close>

definition chan_send :: "'a chan \<Rightarrow> 'a \<Rightarrow> 'a chan outcome" where
  "chan_send c x =
     (if closed c then Panic
      else if length (buf c) < cap c then Done (c\<lparr>buf := buf c @ [x]\<rparr>)
      else Blocked (c\<lparr>sendq := sendq c @ [x]\<rparr>))"

text \<open>
  \<^verbatim>\<open>select { case c <- x: return true; default: return false }\<close>: it never parks;
  \<open>None\<close> is the panic of a send on a closed channel.
\<close>

definition chan_try_send :: "'a chan \<Rightarrow> 'a \<Rightarrow> ('a chan \<times> bool) option" where
  "chan_try_send c x =
     (if closed c then None
      else if length (buf c) < cap c then Some (c\<lparr>buf := buf c @ [x]\<rparr>, True)
      else Some (c, False))"

text \<open>
  A receive that is ready takes the oldest buffered value and lets the oldest parked
  sender put its value into the buffer; with an empty buffer it takes the value of the
  oldest parked sender; on a closed and empty channel it yields the zero value with
  \<^verbatim>\<open>ok = false\<close> (\<open>Drained\<close>). Otherwise the channel is not ready (\<open>Empty\<close>).
\<close>

definition chan_recv :: "'a chan \<Rightarrow> 'a recv \<times> 'a chan" where
  "chan_recv c =
     (case buf c of
        x # xs \<Rightarrow>
          (case sendq c of
             [] \<Rightarrow> (Got x, c\<lparr>buf := xs\<rparr>)
           | y # ys \<Rightarrow> (Got x, c\<lparr>buf := xs @ [y], sendq := ys\<rparr>))
      | [] \<Rightarrow>
          (case sendq c of
             y # ys \<Rightarrow> (Got y, c\<lparr>sendq := ys\<rparr>)
           | [] \<Rightarrow> (if closed c then Drained else Empty, c)))"

text \<open>
  \<^verbatim>\<open>close(c)\<close>: panics on a closed channel (\<open>None\<close>); the senders parked on the channel
  are woken (each panics in its own goroutine), the buffered values stay.
\<close>

definition chan_close :: "'a chan \<Rightarrow> 'a chan option" where
  "chan_close c = (if closed c then None else Some (c\<lparr>closed := True, sendq := []\<rparr>))"

text \<open>The values a channel still hands to its receiver, in the order it hands them.\<close>

definition pending :: "'a chan \<Rightarrow> 'a list" where
  "pending c = buf c @ sendq c"

section \<open>Endpoints\<close>

text \<open>
  A subscriber endpoint is a value of type \<^verbatim>\<open>chan<- T\<close>: \<open>None\<close> is the nil channel,
  \<open>Some c\<close> the channel at address \<open>c\<close> of the store. Two handles are equal exactly when
  they are the same channel.
\<close>

type_synonym 'c handle = "'c option"

type_synonym ('c, 'v) store = "'c \<Rightarrow> 'v chan"

text \<open>\<^verbatim>\<open>ch <- m\<close> on an endpoint; a send on the nil channel parks forever.\<close>

definition send_to :: "'c handle \<Rightarrow> 'v \<Rightarrow> ('c, 'v) store \<Rightarrow> ('c, 'v) store outcome" where
  "send_to h m eps =
     (case h of
        None \<Rightarrow> Blocked eps
      | Some c \<Rightarrow>
          (case chan_send (eps c) m of
             Done k \<Rightarrow> Done (eps(c := k))
           | Blocked k \<Rightarrow> Blocked (eps(c := k))
           | Panic \<Rightarrow> Panic))"

text \<open>
  \<^verbatim>\<open>for ch := range outputs { ch <- m }\<close>, for the order \<open>ks\<close> in which the runtime
  enumerates the keys of the map. Go leaves that order open: \<open>ks\<close> is any list that
  holds every key once (\<open>key_order\<close>).
\<close>

fun broadcast_over :: "'c handle list \<Rightarrow> 'v \<Rightarrow> ('c, 'v) store \<Rightarrow> ('c, 'v) store outcome" where
  "broadcast_over [] m eps = Done eps"
| "broadcast_over (h # hs) m eps =
     (case send_to h m eps of
        Done eps' \<Rightarrow> broadcast_over hs m eps'
      | Blocked eps' \<Rightarrow> Blocked eps'
      | Panic \<Rightarrow> Panic)"

definition key_order :: "'k list \<Rightarrow> ('k \<rightharpoonup> bool) \<Rightarrow> bool" where
  "key_order ks outs = (distinct ks \<and> set ks = dom outs)"


text \<open>
  The store after one copy of \<open>m\<close> has entered the buffer of every endpoint of \<open>H\<close>.
\<close>

definition deliver :: "'c handle set \<Rightarrow> 'v \<Rightarrow> ('c, 'v) store \<Rightarrow> ('c, 'v) store" where
  "deliver H m eps = (\<lambda>c. if Some c \<in> H then (eps c)\<lparr>buf := buf (eps c) @ [m]\<rparr> else eps c)"

section \<open>Broadcaster\<close>

record ('c, 'v) broadcaster =
  input :: "'v chan"
  reg :: "'c handle chan"
  unreg :: "'c handle chan"
  outputs :: "'c handle \<rightharpoonup> bool"

text \<open>A value of Go's \<^verbatim>\<open>error\<close> interface; \<open>None\<close> is \<^verbatim>\<open>nil\<close>.\<close>

type_synonym error = "string option"

text \<open>\<^verbatim>\<open>broadcaster.broadcast\<close>\<close>

definition broadcast ::
  "'c handle list \<Rightarrow> ('c, 'v) broadcaster \<Rightarrow> 'v \<Rightarrow> ('c, 'v) store \<Rightarrow> ('c, 'v) store outcome" where
  "broadcast ks b m eps = broadcast_over ks m eps"

text \<open>
  \<^verbatim>\<open>NewBroadcaster(buflen)\<close>: \<^verbatim>\<open>make\<close> panics on a negative size; the two control
  channels are unbuffered. The loop it starts is \<open>run_iter\<close> below.
\<close>

definition NewBroadcaster :: "int \<Rightarrow> ('c, 'v) broadcaster outcome" where
  "NewBroadcaster buflen =
     (if buflen < 0 then Panic
      else Done \<lparr>input = make_chan (nat buflen), reg = make_chan 0, unreg = make_chan 0,
                 outputs = Map.empty\<rparr>)"

text \<open>
  The methods take the receiver as Go passes it: \<open>None\<close> is the nil pointer, and a
  field read through it panics.
\<close>

definition Register ::
  "('c, 'v) broadcaster option \<Rightarrow> 'c handle \<Rightarrow> ('c, 'v) broadcaster outcome" where
  "Register b newch =
     (case b of
        None \<Rightarrow> Panic
      | Some s \<Rightarrow>
          (case chan_send (reg s) newch of
             Done r \<Rightarrow> Done (s\<lparr>reg := r\<rparr>)
           | Blocked r \<Rightarrow> Blocked (s\<lparr>reg := r\<rparr>)
           | Panic \<Rightarrow> Panic))"

definition Unregister ::
  "('c, 'v) broadcaster option \<Rightarrow> 'c handle \<Rightarrow> ('c, 'v) broadcaster outcome" where
  "Unregister b newch =
     (case b of
        None \<Rightarrow> Panic
      | Some s \<Rightarrow>
          (case chan_send (unreg s) newch of
             Done u \<Rightarrow> Done (s\<lparr>unreg := u\<rparr>)
           | Blocked u \<Rightarrow> Blocked (s\<lparr>unreg := u\<rparr>)
           | Panic \<Rightarrow> Panic))"

definition Close ::
  "('c, 'v) broadcaster option \<Rightarrow> (('c, 'v) broadcaster \<times> error) outcome" where
  "Close b =
     (case b of
        None \<Rightarrow> Panic
      | Some s \<Rightarrow>
          (case chan_close (reg s) of
             None \<Rightarrow> Panic
           | Some r \<Rightarrow>
               (case chan_close (unreg s) of
                  None \<Rightarrow> Panic
                | Some u \<Rightarrow> Done (s\<lparr>reg := r, unreg := u\<rparr>, None))))"

definition Submit ::
  "('c, 'v) broadcaster option \<Rightarrow> 'v \<Rightarrow> ('c, 'v) broadcaster option outcome" where
  "Submit b m =
     (case b of
        None \<Rightarrow> Done None
      | Some s \<Rightarrow>
          (case chan_send (input s) m of
             Done i \<Rightarrow> Done (Some (s\<lparr>input := i\<rparr>))
           | Blocked i \<Rightarrow> Blocked (Some (s\<lparr>input := i\<rparr>))
           | Panic \<Rightarrow> Panic))"

definition TrySubmit ::
  "('c, 'v) broadcaster option \<Rightarrow> 'v \<Rightarrow> (('c, 'v) broadcaster option \<times> bool) outcome" where
  "TrySubmit b m =
     (case b of
        None \<Rightarrow> Done (None, False)
      | Some s \<Rightarrow>
          (case chan_try_send (input s) m of
             None \<Rightarrow> Panic
           | Some (i, ok) \<Rightarrow> Done (Some (s\<lparr>input := i\<rparr>), ok)))"

subsection \<open>The loop of the Broadcaster\<close>

text \<open>
  One pass through the body of \<^verbatim>\<open>for { select { ... } }\<close> of \<^verbatim>\<open>broadcaster.run\<close>.
  The runtime picks one of the cases that are ready (\<open>p\<close>); the result is \<open>None\<close> when
  the picked case is not ready, so the select waits exactly when every pick gives
  \<open>None\<close>. \<open>z\<close> is the zero value of \<^verbatim>\<open>T\<close>, which a receive on a closed channel yields.
  The loop goes on (\<open>Next\<close>), returns (\<open>Exit\<close>), is parked in a send to an endpoint
  (\<open>Parked\<close>) or has panicked (\<open>Crashed\<close>).
\<close>

datatype pick = PickInput | PickReg | PickUnreg

datatype 'a loop = Next 'a | Exit 'a | Parked 'a | Crashed

definition after_broadcast :: "'b \<Rightarrow> 'e outcome \<Rightarrow> ('b \<times> 'e) loop" where
  "after_broadcast b r =
     (case r of
        Done eps' \<Rightarrow> Next (b, eps')
      | Blocked eps' \<Rightarrow> Parked (b, eps')
      | Panic \<Rightarrow> Crashed)"

definition run_iter ::
  "'v \<Rightarrow> pick \<Rightarrow> 'c handle list \<Rightarrow> ('c, 'v) broadcaster \<times> ('c, 'v) store \<Rightarrow>
   (('c, 'v) broadcaster \<times> ('c, 'v) store) loop option" where
  "run_iter z p ks s =
     (case s of (b, eps) \<Rightarrow>
        (case p of
           PickInput \<Rightarrow>
             (case chan_recv (input b) of
                (Got m, i) \<Rightarrow> Some (after_broadcast (b\<lparr>input := i\<rparr>) (broadcast ks b m eps))
              | (Drained, i) \<Rightarrow> Some (after_broadcast (b\<lparr>input := i\<rparr>) (broadcast ks b z eps))
              | (Empty, i) \<Rightarrow> None)
         | PickReg \<Rightarrow>
             (case chan_recv (reg b) of
                (Got ch, r) \<Rightarrow> Some (Next (b\<lparr>reg := r, outputs := (outputs b)(ch \<mapsto> True)\<rparr>, eps))
              | (Drained, r) \<Rightarrow> Some (Exit (b, eps))
              | (Empty, r) \<Rightarrow> None)
         | PickUnreg \<Rightarrow>
             (case chan_recv (unreg b) of
                (Got ch, u) \<Rightarrow> Some (Next (b\<lparr>unreg := u, outputs := (outputs b)(ch := None)\<rparr>, eps))
              | (Drained, u) \<Rightarrow> Some (Next (b\<lparr>outputs := (outputs b)(None := None)\<rparr>, eps))
              | (Empty, u) \<Rightarrow> None)))"


section \<open>MuxObserver\<close>

text \<open>
  A token is a \<^verbatim>\<open>*subObserver\<close>: \<open>None\<close> is the nil pointer, \<open>Some a\<close> the sub-handle
  allocated at address \<open>a\<close>. The field of \<^verbatim>\<open>taggedObservation\<close> that the source calls
  \<^verbatim>\<open>sub\<close> is \<open>obs_sub\<close> here; the fields \<^verbatim>\<open>reg\<close> and \<^verbatim>\<open>input\<close> of \<^verbatim>\<open>MuxObserver\<close> are
  \<open>mux_reg\<close> and \<open>mux_input\<close>.
\<close>

record ('s, 'v) taggedObservation =
  obs_sub :: "'s option"
  ob :: 'v

definition register :: int where "register = 0"
definition unregister :: int where "unregister = 1"
definition purge :: int where "purge = 2"

record ('s, 'c) taggedRegReq =
  sub :: "'s option"
  ch :: "'c handle"
  regType :: int

record ('s, 'c, 'v) MuxObserver =
  subs :: "'s option \<rightharpoonup> ('c handle \<rightharpoonup> bool)"
  mux_reg :: "('s, 'c) taggedRegReq chan"
  mux_input :: "('s, 'v) taggedObservation chan"

definition NewMuxObserver :: "int \<Rightarrow> int \<Rightarrow> ('s, 'c, 'v) MuxObserver outcome" where
  "NewMuxObserver qlen reglen =
     (if reglen < 0 \<or> qlen < 0 then Panic
      else Done \<lparr>subs = Map.empty, mux_reg = make_chan (nat reglen),
                 mux_input = make_chan (nat qlen)\<rparr>)"

definition Mux_Close ::
  "('s, 'c, 'v) MuxObserver option \<Rightarrow> (('s, 'c, 'v) MuxObserver \<times> error) outcome" where
  "Mux_Close m =
     (case m of
        None \<Rightarrow> Panic
      | Some s \<Rightarrow>
          (case chan_close (mux_reg s) of
             None \<Rightarrow> Panic
           | Some r \<Rightarrow> Done (s\<lparr>mux_reg := r\<rparr>, None)))"

text \<open>\<^verbatim>\<open>m.subs[t]\<close>: indexing a map with a key it does not hold yields the nil map, which has no keys.\<close>

definition subs_at :: "('s, 'c, 'v) MuxObserver \<Rightarrow> 's option \<Rightarrow> ('c handle \<rightharpoonup> bool)" where
  "subs_at m t = (case subs m t of None \<Rightarrow> Map.empty | Some mm \<Rightarrow> mm)"

text \<open>\<^verbatim>\<open>MuxObserver.broadcast\<close>, for an order \<open>ks\<close> of the keys of \<^verbatim>\<open>m.subs[to.sub]\<close>.\<close>

definition mux_broadcast ::
  "'c handle list \<Rightarrow> ('s, 'c, 'v) MuxObserver \<Rightarrow> ('s, 'v) taggedObservation \<Rightarrow>
   ('c, 'v) store \<Rightarrow> ('c, 'v) store outcome" where
  "mux_broadcast ks m to eps = broadcast_over ks (ob to) eps"

definition doReg :: "('s, 'c, 'v) MuxObserver \<Rightarrow> ('s, 'c) taggedRegReq \<Rightarrow> ('s, 'c, 'v) MuxObserver" where
  "doReg m tr =
     (case subs m (sub tr) of
        None \<Rightarrow> m\<lparr>subs := (subs m)(sub tr \<mapsto> Map.empty(ch tr \<mapsto> True))\<rparr>
      | Some mm \<Rightarrow> m\<lparr>subs := (subs m)(sub tr \<mapsto> mm(ch tr \<mapsto> True))\<rparr>)"

definition doUnreg :: "('s, 'c, 'v) MuxObserver \<Rightarrow> ('s, 'c) taggedRegReq \<Rightarrow> ('s, 'c, 'v) MuxObserver" where
  "doUnreg m tr =
     (case subs m (sub tr) of
        None \<Rightarrow> m
      | Some mm \<Rightarrow>
          (if dom (mm(ch tr := None)) = {}
           then m\<lparr>subs := (subs m)(sub tr := None)\<rparr>
           else m\<lparr>subs := (subs m)(sub tr \<mapsto> mm(ch tr := None))\<rparr>))"

definition handleReg :: "('s, 'c, 'v) MuxObserver \<Rightarrow> ('s, 'c) taggedRegReq \<Rightarrow> ('s, 'c, 'v) MuxObserver" where
  "handleReg m tr =
     (if regType tr = register then doReg m tr
      else if regType tr = unregister then doUnreg m tr
      else if regType tr = purge then m\<lparr>subs := (subs m)(sub tr := None)\<rparr>
      else m)"

subsection \<open>The loop of the MuxObserver\<close>

text \<open>
  \<^verbatim>\<open>MuxObserver.run\<close> has two selects: the outer one receives from the registration
  queue or falls through its \<^verbatim>\<open>default\<close>; the inner one waits for both queues. The loop
  is at one of them (\<open>pc\<close>); other goroutines may act between the two. At the inner
  select the runtime picks a ready case (\<open>p\<close>); \<open>None\<close> again says that the picked
  case is not ready. The zero value of \<^verbatim>\<open>taggedObservation\<close> is the nil token with the
  zero value \<open>z\<close> of \<^verbatim>\<open>T\<close>.
\<close>

datatype pc = Outer | Inner

datatype mux_pick = MuxPickInput | MuxPickReg

type_synonym ('s, 'c, 'v) mux_state = "pc \<times> ('s, 'c, 'v) MuxObserver \<times> ('c, 'v) store"

definition after_mux_broadcast :: "'m \<Rightarrow> 'e outcome \<Rightarrow> (pc \<times> 'm \<times> 'e) loop" where
  "after_mux_broadcast m r =
     (case r of
        Done eps' \<Rightarrow> Next (Outer, m, eps')
      | Blocked eps' \<Rightarrow> Parked (Inner, m, eps')
      | Panic \<Rightarrow> Crashed)"

definition recv_reg ::
  "('s, 'c, 'v) MuxObserver \<Rightarrow> ('c, 'v) store \<Rightarrow> ('s, 'c, 'v) mux_state loop option" where
  "recv_reg m eps =
     (case chan_recv (mux_reg m) of
        (Got tr, r) \<Rightarrow> Some (Next (Outer, handleReg (m\<lparr>mux_reg := r\<rparr>) tr, eps))
      | (Drained, r) \<Rightarrow> Some (Exit (Outer, m, eps))
      | (Empty, r) \<Rightarrow> None)"

definition mux_run_iter ::
  "'v \<Rightarrow> mux_pick \<Rightarrow> 'c handle list \<Rightarrow> ('s, 'c, 'v) mux_state \<Rightarrow>
   ('s, 'c, 'v) mux_state loop option" where
  "mux_run_iter z p ks s =
     (case s of
        (Outer, m, eps) \<Rightarrow>
          (case recv_reg m eps of
             Some l \<Rightarrow> Some l
           | None \<Rightarrow> Some (Next (Inner, m, eps)))
      | (Inner, m, eps) \<Rightarrow>
          (case p of
             MuxPickInput \<Rightarrow>
               (case chan_recv (mux_input m) of
                  (Got to, i) \<Rightarrow>
                    Some (after_mux_broadcast (m\<lparr>mux_input := i\<rparr>) (mux_broadcast ks m to eps))
                | (Drained, i) \<Rightarrow>
                    Some (after_mux_broadcast (m\<lparr>mux_input := i\<rparr>)
                      (mux_broadcast ks m \<lparr>obs_sub = None, ob = z\<rparr> eps))
                | (Empty, i) \<Rightarrow> None)
           | MuxPickReg \<Rightarrow> recv_reg m eps))"

text \<open>The map whose keys the next pass enumerates, if it broadcasts.\<close>

definition mux_range :: "('s, 'c, 'v) mux_state \<Rightarrow> ('c handle \<rightharpoonup> bool)" where
  "mux_range s =
     (case s of (l, m, eps) \<Rightarrow>
        (case chan_recv (mux_input m) of
           (Got to, i) \<Rightarrow> subs_at m (obs_sub to)
         | (Drained, i) \<Rightarrow> subs_at m None
         | (Empty, i) \<Rightarrow> Map.empty))"


subsection \<open>Sub-handles\<close>

text \<open>
  \<^verbatim>\<open>Sub\<close> allocates a \<^verbatim>\<open>subObserver\<close> that points to the observer: \<open>next\<close> is the first
  address the allocator has not handed out, and the call returns it with the allocator
  moved on. The methods of a sub-handle reach the observer through \<^verbatim>\<open>s.mo\<close>, which
  panics when \<^verbatim>\<open>s\<close> is nil; \<open>m\<close> is the observer the handle was made from.
\<close>

definition Sub :: "nat \<Rightarrow> nat option \<times> nat" where
  "Sub next = (Some next, Suc next)"

definition sub_Register ::
  "'s option \<Rightarrow> 'c handle \<Rightarrow> ('s, 'c, 'v) MuxObserver \<Rightarrow> ('s, 'c, 'v) MuxObserver outcome" where
  "sub_Register s c m =
     (case s of
        None \<Rightarrow> Panic
      | Some a \<Rightarrow>
          (case chan_send (mux_reg m) \<lparr>sub = s, ch = c, regType = register\<rparr> of
             Done r \<Rightarrow> Done (m\<lparr>mux_reg := r\<rparr>)
           | Blocked r \<Rightarrow> Blocked (m\<lparr>mux_reg := r\<rparr>)
           | Panic \<Rightarrow> Panic))"

definition sub_Unregister ::
  "'s option \<Rightarrow> 'c handle \<Rightarrow> ('s, 'c, 'v) MuxObserver \<Rightarrow> ('s, 'c, 'v) MuxObserver outcome" where
  "sub_Unregister s c m =
     (case s of
        None \<Rightarrow> Panic
      | Some a \<Rightarrow>
          (case chan_send (mux_reg m) \<lparr>sub = s, ch = c, regType = unregister\<rparr> of
             Done r \<Rightarrow> Done (m\<lparr>mux_reg := r\<rparr>)
           | Blocked r \<Rightarrow> Blocked (m\<lparr>mux_reg := r\<rparr>)
           | Panic \<Rightarrow> Panic))"

definition sub_Close ::
  "'s option \<Rightarrow> ('s, 'c, 'v) MuxObserver \<Rightarrow> (('s, 'c, 'v) MuxObserver \<times> error) outcome" where
  "sub_Close s m =
     (case s of
        None \<Rightarrow> Panic
      | Some a \<Rightarrow>
          (case chan_send (mux_reg m) \<lparr>sub = s, ch = None, regType = purge\<rparr> of
             Done r \<Rightarrow> Done (m\<lparr>mux_reg := r\<rparr>, None)
           | Blocked r \<Rightarrow> Blocked (m\<lparr>mux_reg := r\<rparr>, None)
           | Panic \<Rightarrow> Panic))"

definition sub_Submit ::
  "'s option \<Rightarrow> 'v \<Rightarrow> ('s, 'c, 'v) MuxObserver \<Rightarrow> ('s, 'c, 'v) MuxObserver outcome" where
  "sub_Submit s v m =
     (case s of
        None \<Rightarrow> Panic
      | Some a \<Rightarrow>
          (case chan_send (mux_input m) \<lparr>obs_sub = s, ob = v\<rparr> of
             Done i \<Rightarrow> Done (m\<lparr>mux_input := i\<rparr>)
           | Blocked i \<Rightarrow> Blocked (m\<lparr>mux_input := i\<rparr>)
           | Panic \<Rightarrow> Panic))"

definition sub_TrySubmit ::
  "'s option \<Rightarrow> 'v \<Rightarrow> ('s, 'c, 'v) MuxObserver \<Rightarrow> (('s, 'c, 'v) MuxObserver \<times> bool) outcome" where
  "sub_TrySubmit s v m =
     (case s of
        None \<Rightarrow> Done (m, False)
      | Some a \<Rightarrow>
          (case chan_try_send (mux_input m) \<lparr>obs_sub = s, ob = v\<rparr> of
             None \<Rightarrow> Panic
           | Some (i, ok) \<Rightarrow> Done (m\<lparr>mux_input := i\<rparr>, ok)))"

section \<open>States and predicates of the claims\<close>

text \<open>No token is bound to an empty set of endpoints.\<close>

definition subs_inv :: "('s, 'c, 'v) MuxObserver \<Rightarrow> bool" where
  "subs_inv m = (\<forall>t mm. subs m t = Some mm \<longrightarrow> dom mm \<noteq> {})"

text \<open>The state a pass of a loop, or a call, leaves behind, unless it panicked.\<close>

definition loop_state :: "'a loop \<Rightarrow> 'a option" where
  "loop_state l = (case l of Next s \<Rightarrow> Some s | Exit s \<Rightarrow> Some s | Parked s \<Rightarrow> Some s | Crashed \<Rightarrow> None)"

definition call_state :: "'a outcome \<Rightarrow> 'a option" where
  "call_state r = (case r of Done s \<Rightarrow> Some s | Blocked s \<Rightarrow> Some s | Panic \<Rightarrow> None)"

text \<open>
  The states of a MuxObserver: the one its constructor returns, and from any of them
  the state after a pass of its loop (wherever the pass ends), after a call of a method
  of a sub-handle or of \<^verbatim>\<open>Close\<close>, and after the other goroutines have changed the
  endpoints.
\<close>

inductive mux_reachable :: "'v \<Rightarrow> ('s, 'c, 'v) mux_state \<Rightarrow> bool" for z :: 'v where
  reach_New: "NewMuxObserver qlen reglen = Done m \<Longrightarrow> mux_reachable z (Outer, m, eps)"
| reach_pass: "mux_reachable z s \<Longrightarrow> key_order ks (mux_range s) \<Longrightarrow>
               mux_run_iter z p ks s = Some l \<Longrightarrow> loop_state l = Some s' \<Longrightarrow>
               mux_reachable z s'"
| reach_Register: "mux_reachable z (l, m, eps) \<Longrightarrow> call_state (sub_Register s c m) = Some m' \<Longrightarrow>
               mux_reachable z (l, m', eps)"
| reach_Unregister: "mux_reachable z (l, m, eps) \<Longrightarrow> call_state (sub_Unregister s c m) = Some m' \<Longrightarrow>
               mux_reachable z (l, m', eps)"
| reach_sub_Close: "mux_reachable z (l, m, eps) \<Longrightarrow> call_state (sub_Close s m) = Some (m', e) \<Longrightarrow>
               mux_reachable z (l, m', eps)"
| reach_Submit: "mux_reachable z (l, m, eps) \<Longrightarrow> call_state (sub_Submit s v m) = Some m' \<Longrightarrow>
               mux_reachable z (l, m', eps)"
| reach_TrySubmit: "mux_reachable z (l, m, eps) \<Longrightarrow> call_state (sub_TrySubmit s v m) = Some (m', ok) \<Longrightarrow>
               mux_reachable z (l, m', eps)"
| reach_Close: "mux_reachable z (l, m, eps) \<Longrightarrow> call_state (Mux_Close (Some m)) = Some (m', e) \<Longrightarrow>
               mux_reachable z (l, m', eps)"
| reach_endpoints: "mux_reachable z (l, m, eps) \<Longrightarrow> mux_reachable z (l, m, eps')"



section \<open>Example states\<close>

text \<open>
  A Broadcaster as \<^verbatim>\<open>NewBroadcaster[int](1)\<close> returns it, and a MuxObserver as
  \<^verbatim>\<open>NewMuxObserver[int](2, 2)\<close> returns it; endpoints and tokens are addresses.
\<close>

definition b1 :: "(nat, int) broadcaster" where
  "b1 = \<lparr>input = make_chan 1, reg = make_chan 0, unreg = make_chan 0, outputs = Map.empty\<rparr>"

definition m1 :: "(nat, nat, int) MuxObserver" where
  "m1 = \<lparr>subs = Map.empty, mux_reg = make_chan 2, mux_input = make_chan 2\<rparr>"

text \<open>A store whose endpoints are all open, empty and buffered with room for two values.\<close>

definition eps1 :: "(nat, int) store" where
  "eps1 = (\<lambda>c. make_chan 2)"

text \<open>The Broadcaster with one registered endpoint and one value in its input queue.\<close>

definition b2 :: "(nat, int) broadcaster" where
  "b2 = b1\<lparr>input := (make_chan 1)\<lparr>buf := [7]\<rparr>, outputs := [Some 0 \<mapsto> True]\<rparr>"

text \<open>The Broadcaster \<open>b1\<close> after \<^verbatim>\<open>Close\<close>.\<close>

definition b1_closed :: "(nat, int) broadcaster" where
  "b1_closed = b1\<lparr>reg := (make_chan 0)\<lparr>closed := True\<rparr>, unreg := (make_chan 0)\<lparr>closed := True\<rparr>\<rparr>"

text \<open>
  A registration request, and the MuxObserver \<open>m1\<close> after its loop has processed it.
\<close>

definition req1 :: "(nat, nat) taggedRegReq" where
  "req1 = \<lparr>sub = Some 0, ch = Some 0, regType = register\<rparr>"

definition m2 :: "(nat, nat, int) MuxObserver" where
  "m2 = m1\<lparr>subs := [Some 0 \<mapsto> [Some 0 \<mapsto> True]]\<rparr>"

text \<open>The MuxObserver \<open>m1\<close> with a request and an observation waiting in its queues.\<close>

definition m1_both :: "(nat, nat, int) MuxObserver" where
  "m1_both = m1\<lparr>mux_reg := (make_chan 2)\<lparr>buf := [req1]\<rparr>,
                mux_input := (make_chan 2)\<lparr>buf := [\<lparr>obs_sub = Some 0, ob = 7\<rparr>]\<rparr>\<rparr>"


text \<open>
  The Broadcaster \<open>b2\<close> with a caller of \<^verbatim>\<open>Register\<close> parked on the registration
  queue, registering the endpoint that is registered already.
\<close>

definition b3 :: "(nat, int) broadcaster" where
  "b3 = b2\<lparr>reg := (make_chan 0)\<lparr>sendq := [Some 0]\<rparr>\<rparr>"


section \<open>Lemmas\<close>

subsection \<open>Channels and constructors\<close>

lemma chan_try_send_full:
  "\<not> closed c \<Longrightarrow> length (buf c) = cap c \<Longrightarrow> chan_try_send c x = Some (c, False)"
  by (simp add: chan_try_send_def)

lemma chan_try_send_room:
  "\<not> closed c \<Longrightarrow> length (buf c) < cap c \<Longrightarrow>
   chan_try_send c x = Some (c\<lparr>buf := buf c @ [x]\<rparr>, True)"
  by (simp add: chan_try_send_def)

lemma NewBroadcaster_input:
  "NewBroadcaster n = Done b \<Longrightarrow>
   \<not> closed (input b) \<and> cap (input b) = nat n \<and> buf (input b) = []"
  by (auto simp: NewBroadcaster_def make_chan_def split: if_splits)

lemma NewBroadcaster_b1: "NewBroadcaster 1 = Done b1"
  by (simp add: NewBroadcaster_def b1_def)

lemma NewMuxObserver_m1: "NewMuxObserver 2 2 = Done m1"
  by (simp add: NewMuxObserver_def m1_def)

subsection \<open>Fan-out\<close>

lemma send_to_Done:
  "send_to h m eps = Done eps' \<Longrightarrow> eps' = deliver {h} m eps \<and> h \<noteq> None"
  by (auto simp: send_to_def chan_send_def deliver_def fun_eq_iff split: option.splits if_splits)


lemma deliver_deliver:
  "h \<notin> H \<Longrightarrow> deliver H m (deliver {h} m eps) = deliver (insert h H) m eps"
  by (auto simp: deliver_def fun_eq_iff)


lemma broadcast_over_Done:
  "distinct ks \<Longrightarrow> broadcast_over ks m eps = Done eps' \<Longrightarrow> eps' = deliver (set ks) m eps"
proof (induction ks arbitrary: eps)
  case Nil
  then show ?case by (simp add: deliver_def)
next
  case (Cons h hs)
  from Cons.prems(2) obtain e1 where s: "send_to h m eps = Done e1"
    and r: "broadcast_over hs m e1 = Done eps'"
    by (auto split: outcome.splits)
  from s have e1: "e1 = deliver {h} m eps" by (simp add: send_to_Done)
  from Cons.IH [OF _ r] Cons.prems(1) have "eps' = deliver (set hs) m e1" by simp
  with e1 Cons.prems(1) show ?case by (simp add: deliver_deliver)
qed


lemma send_to_frame:
  "send_to h m eps = Blocked eps' \<Longrightarrow> h \<noteq> Some c \<Longrightarrow> eps' c = eps c"
  by (auto simp: send_to_def split: option.splits outcome.splits)

lemma broadcast_over_Blocked_frame:
  "broadcast_over ks m eps = Blocked eps' \<Longrightarrow> Some c \<notin> set ks \<Longrightarrow> eps' c = eps c"
proof (induction ks arbitrary: eps)
  case Nil
  then show ?case by simp
next
  case (Cons h hs)
  show ?case
  proof (cases "send_to h m eps")
    case (Done e1)
    with Cons.prems have r: "broadcast_over hs m e1 = Blocked eps'" by simp
    from Done have "e1 = deliver {h} m eps" by (simp add: send_to_Done)
    with Cons.prems(2) have "e1 c = eps c" by (auto simp: deliver_def)
    with Cons.IH [OF r] Cons.prems(2) show ?thesis by simp
  next
    case (Blocked e1)
    with Cons.prems show ?thesis by (auto dest: send_to_frame)
  next
    case Panic
    with Cons.prems show ?thesis by simp
  qed
qed



subsection \<open>Passes of the loop of the Broadcaster\<close>




lemma chan_recv_Empty:
  "chan_recv c = (Empty, c') \<Longrightarrow> \<not> closed c \<and> c' = c \<and> pending c = []"
  by (auto simp: chan_recv_def pending_def split: list.splits if_splits)












subsection \<open>Nil receivers and Close\<close>

lemma nil_receiver_guarded:
  "Submit None v = Done None \<and> TrySubmit None v = Done (None, False) \<and>
   sub_TrySubmit None v m = Done (m, False)"
  by (simp add: Submit_def TrySubmit_def sub_TrySubmit_def)

lemma chan_close_Done:
  "chan_close c = Some c' \<Longrightarrow> closed c' \<and> buf c' = buf c \<and> sendq c' = [] \<and> cap c' = cap c"
  by (auto simp: chan_close_def split: if_splits)

lemma chan_close_open: "\<not> closed c \<Longrightarrow> chan_close c = Some (c\<lparr>closed := True, sendq := []\<rparr>)"
  by (simp add: chan_close_def)

lemma chan_recv_closed_empty:
  "closed c \<Longrightarrow> buf c = [] \<Longrightarrow> sendq c = [] \<Longrightarrow> chan_recv c = (Drained, c)"
  by (simp add: chan_recv_def)

lemma Close_Done:
  assumes "Close (Some b) = Done (b', e)"
  shows "e = None \<and> closed (reg b') \<and> closed (unreg b') \<and> input b' = input b \<and>
         outputs b' = outputs b \<and> buf (reg b') = buf (reg b) \<and> sendq (reg b') = []"
  using assms
  by (auto simp: Close_def chan_close_def split: if_splits)

lemma run_iter_Exit:
  "(\<exists>s'. run_iter z p ks (b, eps) = Some (Exit s')) \<longleftrightarrow>
   (p = PickReg \<and> fst (chan_recv (reg b)) = Drained)"
  by (cases p)
     (auto simp: run_iter_def after_broadcast_def split: prod.splits recv.splits outcome.splits)

lemma run_iter_Reg_Drained:
  "chan_recv (reg b) = (Drained, r) \<Longrightarrow> run_iter z PickReg ks (b, eps) = Some (Exit (b, eps))"
  by (simp add: run_iter_def)

lemma NewBroadcaster_reg:
  "NewBroadcaster n = Done b \<Longrightarrow> cap (reg b) = 0 \<and> buf (reg b) = [] \<and> \<not> closed (reg b)"
  by (auto simp: NewBroadcaster_def make_chan_def split: if_splits)

lemma unbuffered_send:
  "cap c = 0 \<Longrightarrow> buf c = [] \<Longrightarrow> chan_send c x = Done c' \<or> chan_send c x = Blocked c' \<Longrightarrow>
   cap c' = 0 \<and> buf c' = []"
  by (auto simp: chan_send_def split: if_splits)

lemma unbuffered_recv:
  "cap c = 0 \<Longrightarrow> buf c = [] \<Longrightarrow> chan_recv c = (r, c') \<Longrightarrow> cap c' = 0 \<and> buf c' = []"
  by (auto simp: chan_recv_def split: list.splits if_splits)

subsection \<open>The subscriptions map\<close>

lemma subs_inv_queues [simp]:
  "subs_inv (m\<lparr>mux_reg := r\<rparr>) = subs_inv m" "subs_inv (m\<lparr>mux_input := i\<rparr>) = subs_inv m"
  by (simp_all add: subs_inv_def)

lemma subs_inv_upd:
  "subs_inv m \<Longrightarrow> dom mm \<noteq> {} \<Longrightarrow> subs_inv (m\<lparr>subs := (subs m)(t \<mapsto> mm)\<rparr>)"
  unfolding subs_inv_def by auto

lemma subs_inv_del: "subs_inv m \<Longrightarrow> subs_inv (m\<lparr>subs := (subs m)(t := None)\<rparr>)"
  unfolding subs_inv_def by auto

lemma doReg_inv: "subs_inv m \<Longrightarrow> subs_inv (doReg m tr)"
  by (cases "subs m (sub tr)") (simp_all add: doReg_def subs_inv_upd)

lemma doUnreg_inv: "subs_inv m \<Longrightarrow> subs_inv (doUnreg m tr)"
  by (cases "subs m (sub tr)") (simp_all add: doUnreg_def subs_inv_upd subs_inv_del del: dom_eq_empty_conv)

lemma handleReg_inv: "subs_inv m \<Longrightarrow> subs_inv (handleReg m tr)"
  by (simp add: handleReg_def doReg_inv doUnreg_inv subs_inv_del)

lemma recv_reg_inv:
  "recv_reg m eps = Some l \<Longrightarrow> loop_state l = Some (pc', m', eps') \<Longrightarrow> subs_inv m \<Longrightarrow> subs_inv m'"
  by (auto simp: recv_reg_def loop_state_def handleReg_inv split: prod.splits recv.splits)

lemma after_mux_broadcast_state:
  "loop_state (after_mux_broadcast m r) = Some (pc', m', eps') \<Longrightarrow> m' = m"
  by (auto simp: after_mux_broadcast_def loop_state_def split: outcome.splits)

lemma mux_run_iter_inv:
  assumes "mux_run_iter z p ks (l, m, eps) = Some r" and "loop_state r = Some (l', m', eps')"
    and "subs_inv m"
  shows "subs_inv m'"
proof (cases l)
  case Outer
  show ?thesis
  proof (cases "recv_reg m eps")
    case None
    with Outer assms show ?thesis by (auto simp: mux_run_iter_def loop_state_def)
  next
    case (Some x)
    with Outer assms show ?thesis by (auto simp: mux_run_iter_def dest: recv_reg_inv)
  qed
next
  case Inner
  show ?thesis
  proof (cases p)
    case MuxPickReg
    with Inner assms show ?thesis by (auto simp: mux_run_iter_def dest: recv_reg_inv)
  next
    case MuxPickInput
    with Inner assms show ?thesis
      by (auto simp: mux_run_iter_def split: prod.splits recv.splits
            dest!: after_mux_broadcast_state)
  qed
qed

lemma call_state_subs:
  "call_state (sub_Register s c m) = Some m' \<Longrightarrow> subs m' = subs m"
  "call_state (sub_Unregister s c m) = Some m' \<Longrightarrow> subs m' = subs m"
  "call_state (sub_Close s m) = Some (m', e) \<Longrightarrow> subs m' = subs m"
  "call_state (sub_Submit s v m) = Some m' \<Longrightarrow> subs m' = subs m"
  "call_state (sub_TrySubmit s v m) = Some (m', ok) \<Longrightarrow> subs m' = subs m"
  "call_state (Mux_Close (Some m)) = Some (m', e) \<Longrightarrow> subs m' = subs m"
  by (auto simp: call_state_def sub_Register_def sub_Unregister_def sub_Close_def sub_Submit_def
        sub_TrySubmit_def Mux_Close_def split: option.splits outcome.splits prod.splits)

lemma subs_inv_cong: "subs m' = subs m \<Longrightarrow> subs_inv m \<Longrightarrow> subs_inv m'"
  by (simp add: subs_inv_def)

lemma mux_reachable_inv: "mux_reachable z s \<Longrightarrow> subs_inv (fst (snd s))"
proof (induction rule: mux_reachable.induct)
  case (reach_New qlen reglen m eps)
  then show ?case by (auto simp: NewMuxObserver_def subs_inv_def split: if_splits)
next
  case (reach_pass s ks p l s')
  obtain a m eps where s: "s = (a, m, eps)" by (cases s)
  obtain a' m' eps' where s': "s' = (a', m', eps')" by (cases s')
  from reach_pass s s' mux_run_iter_inv [of z p ks a m eps l a' m' eps'] show ?case by simp
qed (auto dest: call_state_subs intro: subs_inv_cong)

lemma handleReg_unregister:
  assumes "subs m t = Some mm"
  shows "(dom mm \<subseteq> {h} \<longrightarrow>
            subs (handleReg m \<lparr>sub = t, ch = h, regType = unregister\<rparr>) t = None) \<and>
         (\<not> dom mm \<subseteq> {h} \<longrightarrow>
            subs (handleReg m \<lparr>sub = t, ch = h, regType = unregister\<rparr>) t = Some (mm(h := None)))"
proof -
  have "dom (mm(h := None)) = {} \<longleftrightarrow> dom mm \<subseteq> {h}" by auto
  with assms show ?thesis
    by (simp add: handleReg_def doUnreg_def register_def unregister_def del: dom_eq_empty_conv)
qed

lemma handleReg_purge:
  "subs (handleReg m \<lparr>sub = t, ch = h, regType = purge\<rparr>) = (subs m)(t := None)"
  by (simp add: handleReg_def register_def unregister_def purge_def)

lemma m1_Register:
  "sub_Register (Some 0) (Some 0) m1 = Done (m1\<lparr>mux_reg := (make_chan 2)\<lparr>buf := [req1]\<rparr>\<rparr>)"
  by (simp add: sub_Register_def chan_send_def m1_def make_chan_def req1_def)

lemma m1_pass:
  "mux_run_iter z p [] (Outer, m1\<lparr>mux_reg := (make_chan 2)\<lparr>buf := [req1]\<rparr>\<rparr>, eps1) =
     Some (Next (Outer, m2, eps1))"
  by (simp add: mux_run_iter_def recv_reg_def chan_recv_def handleReg_def doReg_def m1_def m2_def
        make_chan_def req1_def register_def)

lemma m2_reachable: "mux_reachable z (Outer, m2, eps1)"
proof -
  have "mux_reachable z (Outer, m1, eps1)"
    by (rule reach_New [OF NewMuxObserver_m1])
  then have r: "mux_reachable z (Outer, m1\<lparr>mux_reg := (make_chan 2)\<lparr>buf := [req1]\<rparr>\<rparr>, eps1)"
    by (rule reach_Register [where s = "Some 0" and c = "Some 0"])
       (simp add: m1_Register call_state_def)
  have k: "key_order [] (mux_range (Outer, m1\<lparr>mux_reg := (make_chan 2)\<lparr>buf := [req1]\<rparr>\<rparr>, eps1))"
    by (simp add: key_order_def mux_range_def chan_recv_def m1_def make_chan_def)
  have l: "loop_state (Next (Outer, m2, eps1)) = Some (Outer, m2, eps1)"
    by (simp add: loop_state_def)
  from reach_pass [OF r k m1_pass l] show ?thesis .
qed

subsection \<open>Passes of the loop of the MuxObserver\<close>

lemma handleReg_queues [simp]:
  "mux_input (handleReg m tr) = mux_input m" "mux_reg (handleReg m tr) = mux_reg m"
  by (auto simp: handleReg_def doReg_def doUnreg_def split: option.splits)

lemma recv_reg_Got:
  "chan_recv (mux_reg m) = (Got tr, r) \<Longrightarrow>
   recv_reg m eps = Some (Next (Outer, handleReg (m\<lparr>mux_reg := r\<rparr>) tr, eps))"
  by (simp add: recv_reg_def)

lemma recv_reg_Exit:
  "(\<exists>s'. recv_reg m eps = Some (Exit s')) \<longleftrightarrow> fst (chan_recv (mux_reg m)) = Drained"
  by (auto simp: recv_reg_def split: prod.splits recv.splits)

lemma recv_reg_None: "recv_reg m eps = None \<longleftrightarrow> fst (chan_recv (mux_reg m)) = Empty"
  by (auto simp: recv_reg_def split: prod.splits recv.splits)

lemma recv_reg_not_Inner: "recv_reg m eps \<noteq> Some (Next (Inner, s'))"
  by (auto simp: recv_reg_def split: prod.splits recv.splits)

lemma after_mux_broadcast_not_Exit: "after_mux_broadcast m r \<noteq> Exit s'"
  by (auto simp: after_mux_broadcast_def split: outcome.splits)

lemma mux_run_iter_Outer:
  "mux_run_iter z p ks (Outer, m, eps) =
     (case recv_reg m eps of Some l \<Rightarrow> Some l | None \<Rightarrow> Some (Next (Inner, m, eps)))"
  by (simp add: mux_run_iter_def)

lemma mux_run_iter_Exit:
  "(\<exists>s'. mux_run_iter z p ks (l, m, eps) = Some (Exit s')) \<longleftrightarrow>
   (fst (chan_recv (mux_reg m)) = Drained \<and> (l = Outer \<or> p = MuxPickReg))"
proof (cases l)
  case Outer
  show ?thesis
  proof (cases "recv_reg m eps")
    case None
    with Outer recv_reg_None [of m eps] show ?thesis by (simp add: mux_run_iter_Outer)
  next
    case (Some x)
    with Outer recv_reg_Exit [of m eps] show ?thesis by (simp add: mux_run_iter_Outer)
  qed
next
  case Inner
  show ?thesis
  proof (cases p)
    case MuxPickReg
    with Inner recv_reg_Exit [of m eps] show ?thesis by (simp add: mux_run_iter_def)
  next
    case MuxPickInput
    with Inner show ?thesis
      by (auto simp: mux_run_iter_def after_mux_broadcast_not_Exit split: prod.splits recv.splits)
  qed
qed

lemma mux_run_iter_to_Inner:
  "(\<exists>s'. mux_run_iter z p ks (Outer, m, eps) = Some (Next (Inner, s'))) \<longleftrightarrow>
   fst (chan_recv (mux_reg m)) = Empty"
proof (cases "recv_reg m eps")
  case None
  with recv_reg_None [of m eps] show ?thesis by (simp add: mux_run_iter_Outer)
next
  case (Some x)
  with recv_reg_None [of m eps] recv_reg_not_Inner [of m eps] show ?thesis
    by (auto simp: mux_run_iter_Outer)
qed

lemma mux_run_iter_Inner_None:
  "mux_run_iter z p ks (Inner, m, eps) = None \<longleftrightarrow>
   (p = MuxPickInput \<and> fst (chan_recv (mux_input m)) = Empty \<or>
    p = MuxPickReg \<and> fst (chan_recv (mux_reg m)) = Empty)"
  by (cases p) (auto simp: mux_run_iter_def recv_reg_None split: prod.splits recv.splits)




lemma deliver_empty [simp]: "deliver {} m eps = eps"
  by (simp add: deliver_def)





subsection \<open>Registering an endpoint again\<close>

lemma dom_upd_present: "h \<in> dom f \<Longrightarrow> dom (f(h \<mapsto> v)) = dom f"
  by auto

lemma upd_present: "f h = Some v \<Longrightarrow> f(h \<mapsto> v) = f"
  by (rule fun_upd_idem) simp

lemma run_iter_Reg_Got:
  "chan_recv (reg b) = (Got h, r) \<Longrightarrow>
   run_iter z PickReg ks (b, eps) =
     Some (Next (b\<lparr>reg := r, outputs := (outputs b)(h \<mapsto> True)\<rparr>, eps))"
  by (simp add: run_iter_def)

lemma subs_at_doReg:
  "subs_at (doReg m \<lparr>sub = t, ch = h, regType = k\<rparr>) t' =
     (if t' = t then (subs_at m t)(h \<mapsto> True) else subs_at m t')"
  by (auto simp: subs_at_def doReg_def split: option.splits)

lemma handleReg_register:
  "handleReg m \<lparr>sub = t, ch = h, regType = register\<rparr> = doReg m \<lparr>sub = t, ch = h, regType = register\<rparr>"
  by (simp add: handleReg_def)

lemma doReg_present:
  assumes "h \<in> dom (subs_at m t)"
  shows "dom (subs (doReg m \<lparr>sub = t, ch = h, regType = k\<rparr>)) = dom (subs m) \<and>
         (\<forall>t'. t' \<noteq> t \<longrightarrow> subs (doReg m \<lparr>sub = t, ch = h, regType = k\<rparr>) t' = subs m t') \<and>
         (subs_at m t h = Some True \<longrightarrow> subs (doReg m \<lparr>sub = t, ch = h, regType = k\<rparr>) = subs m)"
proof (cases "subs m t")
  case None
  with assms show ?thesis by (simp add: subs_at_def)
next
  case (Some mm)
  then have "subs_at m t = mm" by (simp add: subs_at_def)
  with Some show ?thesis
    by (auto simp: doReg_def upd_present)
qed

subsection \<open>Runs of the loop of the MuxObserver\<close>

lemma subs_at_queues [simp]:
  "subs_at (m\<lparr>mux_reg := r\<rparr>) t = subs_at m t" "subs_at (m\<lparr>mux_input := i\<rparr>) t = subs_at m t"
  by (simp_all add: subs_at_def)






lemma Sub_fresh: "fst (Sub n) \<noteq> fst (Sub (snd (Sub n)))"
  by (simp add: Sub_def)


section \<open>Claims\<close>

subsection \<open>C1: fan-out completeness\<close>



subsection \<open>C2: the boundary of TrySubmit\<close>

text \<open>
  C2. The input queue of a Broadcaster is never closed by the code, and the loop is not
  waiting on it (no receiver is parked on a channel of the model). With capacity \<open>N\<close>:
  when the queue holds \<open>N\<close> values, \<open>TrySubmit\<close> returns false and the Broadcaster is
  as it was; when it holds fewer than \<open>N\<close>, \<open>TrySubmit\<close> returns true and the value is
  the last one of the queue, behind the values that were there.
\<close>

theorem TrySubmit_boundary:
  assumes "\<not> closed (input b)" and "cap (input b) = N"
  shows "(length (buf (input b)) = N \<longrightarrow> TrySubmit (Some b) v = Done (Some b, False)) \<and>
         (length (buf (input b)) < N \<longrightarrow>
            TrySubmit (Some b) v =
              Done (Some (b\<lparr>input := (input b)\<lparr>buf := buf (input b) @ [v]\<rparr>\<rparr>), True))"
  using assms by (simp add: TrySubmit_def chan_try_send_room chan_try_send_full)

theorem TrySubmit_boundary_witness:
  "TrySubmit (Some b1) 5 = Done (Some (b1\<lparr>input := (input b1)\<lparr>buf := [5]\<rparr>\<rparr>), True) \<and>
   TrySubmit (Some (b1\<lparr>input := (input b1)\<lparr>buf := [5]\<rparr>\<rparr>)) 6 =
     Done (Some (b1\<lparr>input := (input b1)\<lparr>buf := [5]\<rparr>\<rparr>), False)"
  using TrySubmit_boundary [of b1 1 5]
    TrySubmit_boundary [of "b1\<lparr>input := (input b1)\<lparr>buf := [5]\<rparr>\<rparr>" 1 6]
  by (simp add: b1_def make_chan_def)

subsection \<open>C3: submission on a nil instance\<close>

text \<open>
  C3. \<open>Submit\<close> and \<open>TrySubmit\<close> of the Broadcaster and \<open>TrySubmit\<close> of a sub-handle
  guard against the nil receiver (\<open>nil_receiver_guarded\<close>). \<open>Submit\<close> of a sub-handle
  has no guard: on the nil sub-handle it reads \<^verbatim>\<open>s.mo\<close> and panics.
\<close>

theorem sub_Submit_nil_panics: "sub_Submit None (1 :: int) m1 = Panic"
  by (simp add: sub_Submit_def)

subsection \<open>C4: entries of the subscriptions map\<close>

text \<open>
  C4. In every reachable state of the MuxObserver every entry of the subscriptions map
  holds at least one endpoint, and every request the loop processes keeps it so.
  Unregistering the only endpoint of a token deletes the token's entry in that step;
  unregistering one of several leaves the entry with the others. A purge request
  removes the entry of its token whatever it holds, and nothing else.
\<close>

theorem subs_entry_invariant:
  "(mux_reachable z (l, m, eps) \<longrightarrow> subs_inv m) \<and>
   (subs_inv m \<longrightarrow> subs_inv (handleReg m tr)) \<and>
   (\<forall>mm. subs m t = Some mm \<longrightarrow>
      (dom mm \<subseteq> {h} \<longrightarrow>
         subs (handleReg m \<lparr>sub = t, ch = h, regType = unregister\<rparr>) t = None) \<and>
      (\<not> dom mm \<subseteq> {h} \<longrightarrow>
         subs (handleReg m \<lparr>sub = t, ch = h, regType = unregister\<rparr>) t = Some (mm(h := None)))) \<and>
   subs (handleReg m \<lparr>sub = t, ch = h, regType = purge\<rparr>) = (subs m)(t := None)"
proof (intro conjI allI impI)
  assume "mux_reachable z (l, m, eps)"
  from mux_reachable_inv [OF this] show "subs_inv m" by simp
next
  assume "subs_inv m"
  then show "subs_inv (handleReg m tr)" by (rule handleReg_inv)
next
  fix mm
  assume s: "subs m t = Some mm"
  {
    assume "dom mm \<subseteq> {h}"
    with handleReg_unregister [OF s, of h]
    show "subs (handleReg m \<lparr>sub = t, ch = h, regType = unregister\<rparr>) t = None" by simp
  }
  {
    assume "\<not> dom mm \<subseteq> {h}"
    with handleReg_unregister [OF s, of h]
    show "subs (handleReg m \<lparr>sub = t, ch = h, regType = unregister\<rparr>) t = Some (mm(h := None))"
      by simp
  }
next
  show "subs (handleReg m \<lparr>sub = t, ch = h, regType = purge\<rparr>) = (subs m)(t := None)"
    by (rule handleReg_purge)
qed

theorem subs_entry_invariant_witness:
  "mux_reachable (0 :: int) (Outer, m2, eps1) \<and> subs_inv m2 \<and>
   subs m2 (Some 0) = Some [Some 0 \<mapsto> True] \<and>
   subs_inv (handleReg m2 \<lparr>sub = Some 0, ch = Some 1, regType = register\<rparr>) \<and>
   subs (handleReg m2 \<lparr>sub = Some 0, ch = Some 0, regType = unregister\<rparr>) (Some 0) = None \<and>
   subs (handleReg m2 \<lparr>sub = Some 0, ch = Some 1, regType = unregister\<rparr>) (Some 0) =
     Some [Some 0 \<mapsto> True] \<and>
   subs (handleReg m2 \<lparr>sub = Some 0, ch = None, regType = purge\<rparr>) = Map.empty"
proof -
  have s: "subs m2 (Some 0) = Some [Some 0 \<mapsto> True]" by (simp add: m2_def)
  note t0 = subs_entry_invariant [of 0 Outer m2 eps1
      "\<lparr>sub = Some 0, ch = Some 1, regType = register\<rparr>" "Some 0" "Some 0"]
  note t1 = subs_entry_invariant [of 0 Outer m2 eps1
      "\<lparr>sub = Some 0, ch = Some 1, regType = register\<rparr>" "Some 0" "Some 1"]
  note t2 = subs_entry_invariant [of 0 Outer m2 eps1
      "\<lparr>sub = Some 0, ch = Some 1, regType = register\<rparr>" "Some 0" None]
  from t0 m2_reachable [of 0] have i: "subs_inv m2" by blast
  with t0 have i': "subs_inv (handleReg m2 \<lparr>sub = Some 0, ch = Some 1, regType = register\<rparr>)"
    by blast
  from t0 s have u0: "subs (handleReg m2 \<lparr>sub = Some 0, ch = Some 0, regType = unregister\<rparr>) (Some 0) = None"
    by simp
  from t1 s have u1: "subs (handleReg m2 \<lparr>sub = Some 0, ch = Some 1, regType = unregister\<rparr>) (Some 0) =
     Some ([Some 0 \<mapsto> True](Some 1 := None))"
    by simp
  have e: "[Some (0::nat) \<mapsto> True](Some 1 := None) = [Some 0 \<mapsto> True]"
    by (auto simp: fun_eq_iff)
  from t2 have p: "subs (handleReg m2 \<lparr>sub = Some 0, ch = None, regType = purge\<rparr>) = (subs m2)(Some 0 := None)"
    by blast
  have "(subs m2)(Some 0 := None) = Map.empty" by (simp add: m2_def m1_def)
  with p u0 u1 e i i' s m2_reachable [of 0] show ?thesis by simp
qed

subsection \<open>C5: registration requests come first\<close>

text \<open>
  C5. At the preferential check (the outer select) a pass processes the oldest request
  of the registration queue whenever one is there, whatever the observation queue holds,
  and leaves the observation queue and the endpoints alone. The pass moves on to the
  blocking select exactly when the registration queue is empty and open; there the loop
  waits as long as the case the runtime would pick has nothing to receive. A pass
  returns exactly when it finds the registration queue closed and empty, at the outer
  select or in the registration case of the inner one.
\<close>

theorem registration_first:
  "(\<forall>tr r. chan_recv (mux_reg m) = (Got tr, r) \<longrightarrow>
      mux_run_iter z p ks (Outer, m, eps) =
        Some (Next (Outer, handleReg (m\<lparr>mux_reg := r\<rparr>) tr, eps)) \<and>
      mux_input (handleReg (m\<lparr>mux_reg := r\<rparr>) tr) = mux_input m) \<and>
   ((\<exists>s'. mux_run_iter z p ks (Outer, m, eps) = Some (Next (Inner, s'))) \<longleftrightarrow>
      fst (chan_recv (mux_reg m)) = Empty) \<and>
   (fst (chan_recv (mux_reg m)) = Empty \<longrightarrow>
      mux_run_iter z p ks (Outer, m, eps) = Some (Next (Inner, m, eps))) \<and>
   (mux_run_iter z p ks (Inner, m, eps) = None \<longleftrightarrow>
      (p = MuxPickInput \<and> fst (chan_recv (mux_input m)) = Empty \<or>
       p = MuxPickReg \<and> fst (chan_recv (mux_reg m)) = Empty)) \<and>
   ((\<exists>s'. mux_run_iter z p ks (l, m, eps) = Some (Exit s')) \<longleftrightarrow>
      (fst (chan_recv (mux_reg m)) = Drained \<and> (l = Outer \<or> p = MuxPickReg)))"
proof (intro conjI allI impI)
  fix tr r
  assume "chan_recv (mux_reg m) = (Got tr, r)"
  then show "mux_run_iter z p ks (Outer, m, eps) =
        Some (Next (Outer, handleReg (m\<lparr>mux_reg := r\<rparr>) tr, eps))"
    by (simp add: mux_run_iter_Outer recv_reg_Got)
  show "mux_input (handleReg (m\<lparr>mux_reg := r\<rparr>) tr) = mux_input m" by simp
next
  show "(\<exists>s'. mux_run_iter z p ks (Outer, m, eps) = Some (Next (Inner, s'))) \<longleftrightarrow>
      fst (chan_recv (mux_reg m)) = Empty"
    by (rule mux_run_iter_to_Inner)
next
  assume "fst (chan_recv (mux_reg m)) = Empty"
  then have "recv_reg m eps = None" by (simp add: recv_reg_None)
  then show "mux_run_iter z p ks (Outer, m, eps) = Some (Next (Inner, m, eps))"
    by (simp add: mux_run_iter_Outer)
next
  show "mux_run_iter z p ks (Inner, m, eps) = None \<longleftrightarrow>
      (p = MuxPickInput \<and> fst (chan_recv (mux_input m)) = Empty \<or>
       p = MuxPickReg \<and> fst (chan_recv (mux_reg m)) = Empty)"
    by (rule mux_run_iter_Inner_None)
next
  show "(\<exists>s'. mux_run_iter z p ks (l, m, eps) = Some (Exit s')) \<longleftrightarrow>
      (fst (chan_recv (mux_reg m)) = Drained \<and> (l = Outer \<or> p = MuxPickReg))"
    by (rule mux_run_iter_Exit)
qed

theorem registration_first_witness:
  "chan_recv (mux_reg m1_both) = (Got req1, make_chan 2) \<and>
   fst (chan_recv (mux_input m1_both)) = Got \<lparr>obs_sub = Some 0, ob = 7\<rparr> \<and>
   mux_run_iter 0 MuxPickInput [] (Outer, m1_both, eps1) =
     Some (Next (Outer, handleReg (m1_both\<lparr>mux_reg := make_chan 2\<rparr>) req1, eps1)) \<and>
   mux_input (handleReg (m1_both\<lparr>mux_reg := make_chan 2\<rparr>) req1) = mux_input m1_both \<and>
   fst (chan_recv (mux_reg m1)) = Empty \<and>
   mux_run_iter 0 MuxPickInput [] (Outer, m1, eps1) = Some (Next (Inner, m1, eps1)) \<and>
   mux_run_iter 0 MuxPickInput [] (Inner, m1, eps1) = None \<and>
   fst (chan_recv (mux_reg (m1\<lparr>mux_reg := (make_chan 2)\<lparr>closed := True\<rparr>\<rparr>))) = Drained \<and>
   (\<exists>s'. mux_run_iter 0 MuxPickReg [] (Inner, m1\<lparr>mux_reg := (make_chan 2)\<lparr>closed := True\<rparr>\<rparr>, eps1) =
      Some (Exit s'))"
proof -
  have g: "chan_recv (mux_reg m1_both) = (Got req1, make_chan 2)"
    by (simp add: chan_recv_def m1_both_def make_chan_def)
  have i: "fst (chan_recv (mux_input m1_both)) = Got \<lparr>obs_sub = Some 0, ob = 7\<rparr>"
    by (simp add: chan_recv_def m1_both_def make_chan_def)
  have e: "fst (chan_recv (mux_reg m1)) = Empty"
    by (simp add: chan_recv_def m1_def make_chan_def)
  have e': "fst (chan_recv (mux_input m1)) = Empty"
    by (simp add: chan_recv_def m1_def make_chan_def)
  have d: "fst (chan_recv (mux_reg (m1\<lparr>mux_reg := (make_chan 2)\<lparr>closed := True\<rparr>\<rparr>))) = Drained"
    by (simp add: chan_recv_def make_chan_def)
  from registration_first [of m1_both 0 MuxPickInput "[]" eps1 Outer] g
  have a: "mux_run_iter 0 MuxPickInput [] (Outer, m1_both, eps1) =
     Some (Next (Outer, handleReg (m1_both\<lparr>mux_reg := make_chan 2\<rparr>) req1, eps1)) \<and>
     mux_input (handleReg (m1_both\<lparr>mux_reg := make_chan 2\<rparr>) req1) = mux_input m1_both"
    by blast
  from registration_first [of m1 0 MuxPickInput "[]" eps1 Outer] e e'
  have b: "mux_run_iter 0 MuxPickInput [] (Outer, m1, eps1) = Some (Next (Inner, m1, eps1)) \<and>
     mux_run_iter 0 MuxPickInput [] (Inner, m1, eps1) = None"
    by blast
  from registration_first
    [of "m1\<lparr>mux_reg := (make_chan 2)\<lparr>closed := True\<rparr>\<rparr>" 0 MuxPickReg "[]" eps1 Inner] d
  have c: "\<exists>s'. mux_run_iter 0 MuxPickReg [] (Inner, m1\<lparr>mux_reg := (make_chan 2)\<lparr>closed := True\<rparr>\<rparr>, eps1) =
      Some (Exit s')"
    by blast
  from g i a e b d c show ?thesis by simp
qed

subsection \<open>C6: demultiplexing\<close>



subsection \<open>C7: isolation of the groups\<close>



subsection \<open>C8: Close ends the loop\<close>

text \<open>
  C8. \<open>Close\<close> on a Broadcaster whose control queues are open returns with the nil
  error; whenever it returns, the error is nil, both control queues are closed and the
  input queue and the outputs are as before. The registration queue is unbuffered, so its
  buffer is empty (\<open>NewBroadcaster_reg\<close>, \<open>unbuffered_send\<close>, \<open>unbuffered_recv\<close>): the
  pass of the loop that picks the registration case then returns. The loop returns in
  no other way: a pass returns exactly when it picks the registration case and finds
  the queue closed and empty.
\<close>

theorem Close_ends_loop:
  "(\<not> closed (reg b) \<and> \<not> closed (unreg b) \<longrightarrow> (\<exists>b'. Close (Some b) = Done (b', None))) \<and>
   (\<forall>b' e. Close (Some b) = Done (b', e) \<longrightarrow>
      e = None \<and> closed (reg b') \<and> closed (unreg b') \<and>
      input b' = input b \<and> outputs b' = outputs b \<and>
      (buf (reg b) = [] \<longrightarrow> run_iter z PickReg ks (b', eps) = Some (Exit (b', eps)))) \<and>
   ((\<exists>s'. run_iter z p ks (b, eps) = Some (Exit s')) \<longleftrightarrow>
      (p = PickReg \<and> fst (chan_recv (reg b)) = Drained))"
proof (intro conjI allI impI)
  assume "\<not> closed (reg b) \<and> \<not> closed (unreg b)"
  then show "\<exists>b'. Close (Some b) = Done (b', None)"
    by (simp add: Close_def chan_close_open)
next
  fix b' e
  assume c: "Close (Some b) = Done (b', e)"
  note d = Close_Done [OF c]
  from d show "e = None" "closed (reg b')" "closed (unreg b')" "input b' = input b"
    "outputs b' = outputs b" by simp_all
  assume "buf (reg b) = []"
  with d have "chan_recv (reg b') = (Drained, reg b')" by (simp add: chan_recv_closed_empty)
  then show "run_iter z PickReg ks (b', eps) = Some (Exit (b', eps))"
    by (rule run_iter_Reg_Drained)
next
  show "(\<exists>s'. run_iter z p ks (b, eps) = Some (Exit s')) \<longleftrightarrow>
      (p = PickReg \<and> fst (chan_recv (reg b)) = Drained)"
    by (rule run_iter_Exit)
qed

theorem Close_ends_loop_witness:
  "\<not> closed (reg b1) \<and> \<not> closed (unreg b1) \<and> buf (reg b1) = [] \<and>
   Close (Some b1) = Done (b1_closed, None) \<and>
   closed (reg b1_closed) \<and> closed (unreg b1_closed) \<and>
   run_iter 0 PickReg [] (b1_closed, eps1) = Some (Exit (b1_closed, eps1)) \<and>
   fst (chan_recv (reg b1_closed)) = Drained \<and>
   fst (chan_recv (reg b1)) = Empty \<and> run_iter 0 PickReg [] (b1, eps1) = None"
proof -
  have c: "Close (Some b1) = Done (b1_closed, None)"
    by (simp add: Close_def chan_close_def b1_def b1_closed_def make_chan_def)
  have e: "buf (reg b1) = []" by (simp add: b1_def make_chan_def)
  note t = Close_ends_loop [of b1 0 "[]" eps1 PickReg]
  from t have "\<forall>b' e. Close (Some b1) = Done (b', e) \<longrightarrow>
      e = None \<and> closed (reg b') \<and> closed (unreg b') \<and>
      input b' = input b1 \<and> outputs b' = outputs b1 \<and>
      (buf (reg b1) = [] \<longrightarrow> run_iter 0 PickReg [] (b', eps1) = Some (Exit (b', eps1)))"
    by (rule conjunct2 [THEN conjunct1])
  from this [rule_format, OF c] e
  have x: "closed (reg b1_closed) \<and> closed (unreg b1_closed) \<and>
    run_iter 0 PickReg [] (b1_closed, eps1) = Some (Exit (b1_closed, eps1))" by simp
  have "fst (chan_recv (reg b1_closed)) = Drained"
    by (simp add: chan_recv_def b1_closed_def make_chan_def)
  moreover have "fst (chan_recv (reg b1)) = Empty"
    by (simp add: chan_recv_def b1_def make_chan_def)
  moreover have "run_iter 0 PickReg [] (b1, eps1) = None"
    by (simp add: run_iter_def chan_recv_def b1_def make_chan_def)
  moreover have "\<not> closed (reg b1) \<and> \<not> closed (unreg b1)" by (simp add: b1_def make_chan_def)
  ultimately show ?thesis using c e x by simp
qed

subsection \<open>C9: registering twice\<close>

text \<open>
  C9. When the loop of the Broadcaster receives a registration of an endpoint that is in
  the output set, the pass goes on with the same set of outputs (and with the same map,
  as the code only ever stores \<^verbatim>\<open>true\<close>) and the same endpoints, and every later
  fan-out that completes puts exactly one copy of its value into each endpoint of the
  set. When the loop of the MuxObserver processes a register request for an endpoint
  that its token holds already, the token's set of endpoints, the set of tokens and the
  entries of the other tokens stay as they were, and every later fan-out for the token
  that completes puts exactly one copy into each endpoint of the set.
\<close>

theorem register_idempotent:
  "(\<forall>r. chan_recv (reg b) = (Got h, r) \<and> h \<in> dom (outputs b) \<longrightarrow>
      (\<exists>b'. run_iter z PickReg ks (b, eps) = Some (Next (b', eps)) \<and>
         dom (outputs b') = dom (outputs b) \<and>
         (outputs b h = Some True \<longrightarrow> outputs b' = outputs b) \<and>
         (\<forall>ks' v e'. key_order ks' (outputs b') \<and> broadcast ks' b' v eps = Done e' \<longrightarrow>
            (\<forall>c. e' c = (if Some c \<in> dom (outputs b)
                         then (eps c)\<lparr>buf := buf (eps c) @ [v]\<rparr> else eps c))))) \<and>
   (h \<in> dom (subs_at m t) \<longrightarrow>
      dom (subs_at (handleReg m \<lparr>sub = t, ch = h, regType = register\<rparr>) t) = dom (subs_at m t) \<and>
      dom (subs (handleReg m \<lparr>sub = t, ch = h, regType = register\<rparr>)) = dom (subs m) \<and>
      (\<forall>t'. t' \<noteq> t \<longrightarrow>
         subs (handleReg m \<lparr>sub = t, ch = h, regType = register\<rparr>) t' = subs m t') \<and>
      (subs_at m t h = Some True \<longrightarrow>
         subs (handleReg m \<lparr>sub = t, ch = h, regType = register\<rparr>) = subs m) \<and>
      (\<forall>ks' to e'. obs_sub to = t \<and>
           key_order ks' (subs_at (handleReg m \<lparr>sub = t, ch = h, regType = register\<rparr>) t) \<and>
           mux_broadcast ks' (handleReg m \<lparr>sub = t, ch = h, regType = register\<rparr>) to eps = Done e' \<longrightarrow>
         (\<forall>c. e' c = (if Some c \<in> dom (subs_at m t)
                      then (eps c)\<lparr>buf := buf (eps c) @ [ob to]\<rparr> else eps c))))"
proof (intro conjI allI impI)
  fix r
  assume a: "chan_recv (reg b) = (Got h, r) \<and> h \<in> dom (outputs b)"
  let ?b' = "b\<lparr>reg := r, outputs := (outputs b)(h \<mapsto> True)\<rparr>"
  from a have d: "dom (outputs ?b') = dom (outputs b)" by (simp add: insert_absorb)
  have "\<forall>ks' v e'. key_order ks' (outputs ?b') \<and> broadcast ks' ?b' v eps = Done e' \<longrightarrow>
            (\<forall>c. e' c = (if Some c \<in> dom (outputs b)
                         then (eps c)\<lparr>buf := buf (eps c) @ [v]\<rparr> else eps c))"
  proof (intro allI impI)
    fix ks' v e' c
    assume k: "key_order ks' (outputs ?b') \<and> broadcast ks' ?b' v eps = Done e'"
    with d have "distinct ks'" and "set ks' = dom (outputs b)"
      and "broadcast_over ks' v eps = Done e'"
      by (simp_all add: key_order_def broadcast_def)
    with broadcast_over_Done [of ks' v eps e'] have "e' = deliver (dom (outputs b)) v eps" by simp
    then show "e' c = (if Some c \<in> dom (outputs b)
                         then (eps c)\<lparr>buf := buf (eps c) @ [v]\<rparr> else eps c)"
      by (simp add: deliver_def)
  qed
  moreover from a have "run_iter z PickReg ks (b, eps) = Some (Next (?b', eps))"
    by (simp add: run_iter_Reg_Got)
  moreover have "outputs b h = Some True \<longrightarrow> outputs ?b' = outputs b"
    by (simp add: upd_present)
  ultimately show "\<exists>b'. run_iter z PickReg ks (b, eps) = Some (Next (b', eps)) \<and>
         dom (outputs b') = dom (outputs b) \<and>
         (outputs b h = Some True \<longrightarrow> outputs b' = outputs b) \<and>
         (\<forall>ks' v e'. key_order ks' (outputs b') \<and> broadcast ks' b' v eps = Done e' \<longrightarrow>
            (\<forall>c. e' c = (if Some c \<in> dom (outputs b)
                         then (eps c)\<lparr>buf := buf (eps c) @ [v]\<rparr> else eps c)))"
    using d by blast
next
  assume p: "h \<in> dom (subs_at m t)"
  let ?m' = "handleReg m \<lparr>sub = t, ch = h, regType = register\<rparr>"
  from p show d: "dom (subs_at ?m' t) = dom (subs_at m t)"
    by (simp add: handleReg_register subs_at_doReg insert_absorb)
  from doReg_present [OF p, of register]
  show "dom (subs ?m') = dom (subs m)" by (simp add: handleReg_register)
  {
    fix t' assume "t' \<noteq> t"
    with doReg_present [OF p, of register]
    show "subs ?m' t' = subs m t'" by (simp add: handleReg_register)
  }
  {
    assume "subs_at m t h = Some True"
    with doReg_present [OF p, of register]
    show "subs ?m' = subs m" by (simp add: handleReg_register)
  }
  {
    fix ks' to e' c
    assume k: "obs_sub to = t \<and> key_order ks' (subs_at ?m' t) \<and> mux_broadcast ks' ?m' to eps = Done e'"
    with d have "distinct ks'" and "set ks' = dom (subs_at m t)"
      and "broadcast_over ks' (ob to) eps = Done e'"
      by (simp_all add: key_order_def mux_broadcast_def)
    with broadcast_over_Done [of ks' "ob to" eps e']
    have "e' = deliver (dom (subs_at m t)) (ob to) eps" by simp
    then show "e' c = (if Some c \<in> dom (subs_at m t)
                      then (eps c)\<lparr>buf := buf (eps c) @ [ob to]\<rparr> else eps c)"
      by (simp add: deliver_def)
  }
qed

theorem register_idempotent_witness:
  "chan_recv (reg b3) = (Got (Some 0), make_chan 0) \<and> Some 0 \<in> dom (outputs b3) \<and>
   outputs b3 (Some 0) = Some True \<and>
   (\<exists>b'. run_iter 0 PickReg [] (b3, eps1) = Some (Next (b', eps1)) \<and> outputs b' = outputs b3) \<and>
   Some 0 \<in> dom (subs_at m2 (Some 0)) \<and> subs_at m2 (Some 0) (Some 0) = Some True \<and>
   subs (handleReg m2 \<lparr>sub = Some 0, ch = Some 0, regType = register\<rparr>) = subs m2"
proof -
  have g: "chan_recv (reg b3) = (Got (Some 0), make_chan 0)"
    by (simp add: chan_recv_def b3_def make_chan_def)
  have o: "outputs b3 (Some 0) = Some True" by (simp add: b3_def b2_def)
  then have d: "Some 0 \<in> dom (outputs b3)" by blast
  have s: "subs_at m2 (Some 0) (Some 0) = Some True" by (simp add: subs_at_def m2_def)
  then have ds: "Some 0 \<in> dom (subs_at m2 (Some 0))" by blast
  note t = register_idempotent [of b3 "Some 0" 0 "[]" eps1 m2 "Some 0"]
  from g d have "chan_recv (reg b3) = (Got (Some 0), make_chan 0) \<and> Some 0 \<in> dom (outputs b3)" ..
  from t [THEN conjunct1, rule_format, OF this]
  obtain b' where "run_iter 0 PickReg [] (b3, eps1) = Some (Next (b', eps1))"
    and "outputs b3 (Some 0) = Some True \<longrightarrow> outputs b' = outputs b3" by blast
  with o have x: "\<exists>b'. run_iter 0 PickReg [] (b3, eps1) = Some (Next (b', eps1)) \<and>
    outputs b' = outputs b3" by blast
  from t [THEN conjunct2, rule_format, OF ds]
  have "subs_at m2 (Some 0) (Some 0) = Some True \<longrightarrow>
    subs (handleReg m2 \<lparr>sub = Some 0, ch = Some 0, regType = register\<rparr>) = subs m2" by blast
  with s have "subs (handleReg m2 \<lparr>sub = Some 0, ch = Some 0, regType = register\<rparr>) = subs m2"
    by blast
  with g d o x ds s show ?thesis by blast
qed

subsection \<open>C10: a second Close\<close>

text \<open>
  C10. On the instance that the constructor returns, of a Broadcaster as of a
  MuxObserver, the first \<open>Close\<close> returns the nil error and a second \<open>Close\<close> panics.
  In any state: whenever \<open>Close\<close> returns, it returns the nil error, and \<open>Close\<close> on
  the instance it leaves behind panics, because the registration queue is closed already.
\<close>

theorem Close_twice_panics:
  "(NewBroadcaster n = Done b \<longrightarrow>
      (\<exists>b'. Close (Some b) = Done (b', None) \<and> Close (Some b') = Panic)) \<and>
   (NewMuxObserver qlen reglen = Done m \<longrightarrow>
      (\<exists>m'. Mux_Close (Some m) = Done (m', None) \<and> Mux_Close (Some m') = Panic)) \<and>
   (Close (Some b) = Done (b', e) \<longrightarrow> e = None \<and> Close (Some b') = Panic) \<and>
   (Mux_Close (Some m) = Done (m', e') \<longrightarrow> e' = None \<and> Mux_Close (Some m') = Panic)"
proof (intro conjI impI)
  assume "NewBroadcaster n = Done b"
  then show "\<exists>b'. Close (Some b) = Done (b', None) \<and> Close (Some b') = Panic"
    by (auto simp: NewBroadcaster_def Close_def chan_close_def make_chan_def split: if_splits)
next
  assume "NewMuxObserver qlen reglen = Done m"
  then show "\<exists>m'. Mux_Close (Some m) = Done (m', None) \<and> Mux_Close (Some m') = Panic"
    by (auto simp: NewMuxObserver_def Mux_Close_def chan_close_def make_chan_def split: if_splits)
next
  assume c: "Close (Some b) = Done (b', e)"
  then show "e = None" by (auto simp: Close_def chan_close_def split: if_splits)
  from c show "Close (Some b') = Panic" by (auto simp: Close_def chan_close_def split: if_splits)
next
  assume c: "Mux_Close (Some m) = Done (m', e')"
  then show "e' = None" by (auto simp: Mux_Close_def chan_close_def split: if_splits)
  from c show "Mux_Close (Some m') = Panic"
    by (auto simp: Mux_Close_def chan_close_def split: if_splits)
qed

theorem Close_twice_panics_witness:
  "NewBroadcaster 1 = Done b1 \<and> Close (Some b1) = Done (b1_closed, None) \<and>
   Close (Some b1_closed) = Panic \<and>
   NewMuxObserver 2 2 = Done m1 \<and>
   Mux_Close (Some m1) = Done (m1\<lparr>mux_reg := (make_chan 2)\<lparr>closed := True\<rparr>\<rparr>, None) \<and>
   Mux_Close (Some (m1\<lparr>mux_reg := (make_chan 2)\<lparr>closed := True\<rparr>\<rparr>)) = Panic"
proof -
  have c1: "Close (Some b1) = Done (b1_closed, None)"
    by (simp add: Close_def chan_close_def b1_def b1_closed_def make_chan_def)
  have c2: "Mux_Close (Some m1) = Done (m1\<lparr>mux_reg := (make_chan 2)\<lparr>closed := True\<rparr>\<rparr>, None)"
    by (simp add: Mux_Close_def chan_close_def m1_def make_chan_def)
  note t = Close_twice_panics [where b = b1 and b' = b1_closed and e = None and m = m1
      and m' = "m1\<lparr>mux_reg := (make_chan 2)\<lparr>closed := True\<rparr>\<rparr>" and e' = None
      and n = 1 and qlen = 2 and reglen = 2]
  from t [THEN conjunct2, THEN conjunct2, THEN conjunct1, rule_format, OF c1]
  have p1: "Close (Some b1_closed) = Panic" by (rule conjunct2)
  from t [THEN conjunct2, THEN conjunct2, THEN conjunct2, rule_format, OF c2]
  have p2: "Mux_Close (Some (m1\<lparr>mux_reg := (make_chan 2)\<lparr>closed := True\<rparr>\<rparr>)) = Panic"
    by (rule conjunct2)
  from NewBroadcaster_b1 NewMuxObserver_m1 c1 c2 p1 p2 show ?thesis by simp
qed

end
